theory Spec2Isabelle
  imports Main
begin

section \<open>The document objects read by \<open>process_table\<close>\<close>

text \<open>
  \<open>good_doc_to_xml.py\<close> walks the tables of a word-processor document and writes one
  \<open>table\<close> element per table, with \<open>rowspan\<close> and \<open>colspan\<close> attributes recovered from the
  merge directives of the cells. The development below embeds the nested function
  \<open>process_table\<close> (lines 26 to 100 of the source).

  Python exceptions are values of type \<open>error\<close>. A computation has type \<open>'a result\<close>:
  \<open>None\<close> stands for a run that never returns (the \<open>while\<close> loop of the source has no
  bound of its own), \<open>Some (Inl e)\<close> for an exception that leaves \<open>process_table\<close>, and
  \<open>Some (Inr v)\<close> for a normal return.
\<close>

datatype error = IndexError | ValueError | TypeError

type_synonym 'a result = "(error + 'a) option"

text \<open>
  Modelled from the spec: the table objects of the document-parsing library, which is not
  part of the repository. The spec describes a table as an ordered sequence of rows, each
  an ordered sequence of raw cells (rows may have unequal lengths), and a raw cell as
  carrying a horizontal span count, a vertical-merge directive, its paragraph texts and
  the tables nested in it. The fields keep the names the source reads:
  \<^item> \<open>gridSpan\<close> is \<open>None\<close> when there is no \<open>w:gridSpan\<close> element, \<open>Some None\<close> when the
    element has no \<open>w:val\<close> attribute, and \<open>Some (Some t)\<close> when it has one, with text \<open>t\<close>;
  \<^item> \<open>vMerge\<close> is \<open>None\<close> when there is no \<open>w:vMerge\<close> element, \<open>Some None\<close> when the
    element has no \<open>w:val\<close> attribute, and \<open>Some (Some v)\<close> when it has the value \<open>v\<close>;
  \<^item> \<open>paragraphs\<close> holds the text of each paragraph of the cell;
  \<^item> \<open>tables\<close> holds the nested tables.
  A table is the list \<open>table.rows\<close>, and a row is the list \<open>row.cells\<close>.

  The text of the \<open>w:val\<close> of a \<open>w:gridSpan\<close> is only ever passed to the builtin \<open>int\<close>
  (line 60), which is no part of the repository either. The text is therefore kept as
  what \<open>int\<close> makes of it: \<open>IntText n\<close> is a text that \<open>int\<close> converts to \<open>n\<close>, and \<open>NotInt\<close>
  a text for which \<open>int\<close> raises \<open>ValueError\<close>.
\<close>

datatype val_text = IntText int | NotInt

datatype cell =
  Cell (gridSpan: "val_text option option") (vMerge: "string option option")
       (paragraphs: "string list") (tables: "cell list list list")

type_synonym row = "cell list"
type_synonym table = "row list"

text \<open>
  Subscripting a Python list with an integer: a negative index counts from the end, and
  an index outside the list raises \<open>IndexError\<close>.
\<close>

definition py_index :: "'a list \<Rightarrow> int \<Rightarrow> error + 'a" where
  "py_index xs i =
     (if 0 \<le> i \<and> i < int (length xs) then Inr (xs ! nat i)
      else if i < 0 \<and> - int (length xs) \<le> i then Inr (xs ! nat (int (length xs) + i))
      else Inl IndexError)"

text \<open>
  Modelled from the spec: \<open>table.cell(i, c)\<close> of the document-parsing library, which the
  spec reads as the cell of row \<open>i\<close> at column \<open>c\<close>; it raises \<open>IndexError\<close> when there is
  no such cell.
\<close>

definition table_cell :: "table \<Rightarrow> nat \<Rightarrow> int \<Rightarrow> error + cell" where
  "table_cell tbl i c =
     (case py_index tbl (int i) of
        Inl e \<Rightarrow> Inl e
      | Inr row \<Rightarrow> py_index row c)"

section \<open>The element tree written by \<open>process_table\<close>\<close>

text \<open>
  An \<open>lxml\<close> element: its tag, its attributes in the order they were set, its text
  (\<open>elem_text\<close>, the attribute \<open>text\<close> of the source) and its children in document order.
\<close>

datatype xml =
  Element (tag: string) (attrib: "(string \<times> string) list")
          (elem_text: "string option") (children: "xml list")

definition xml_set :: "xml \<Rightarrow> string \<Rightarrow> string \<Rightarrow> xml" where
  "xml_set el k v =
     Element (tag el)
       (if k \<in> fst ` set (attrib el)
        then map (\<lambda>(k', v'). if k' = k then (k', v) else (k', v')) (attrib el)
        else attrib el @ [(k, v)])
       (elem_text el) (children el)"


definition set_text :: "xml \<Rightarrow> string \<Rightarrow> xml" where
  "set_text el s = Element (tag el) (attrib el) (Some s) (children el)"

text \<open>
  \<open>etree.SubElement(parent, t)\<close> appends a new element to the children of \<open>parent\<close>. The
  source fills the new element afterwards, through the reference it keeps; the model
  builds the element first and appends it when it is complete, which gives the same tree.
\<close>

definition append_child :: "xml \<Rightarrow> xml \<Rightarrow> xml" where
  "append_child parent el =
     Element (tag parent) (attrib parent) (elem_text parent) (children parent @ [el])"

subsection \<open>\<open>str\<close> and \<open>join\<close>\<close>

definition digit_char :: "nat \<Rightarrow> char" where
  "digit_char d = char_of (48 + d)"

function str_nat :: "nat \<Rightarrow> string" where
  "str_nat n = (if n < 10 then [digit_char n] else str_nat (n div 10) @ [digit_char (n mod 10)])"
  by pat_completeness auto
termination
  by (relation "measure (\<lambda>n. n)") auto

declare str_nat.simps [simp del]

definition str_int :: "int \<Rightarrow> string" where
  "str_int i = (if i < 0 then CHR ''-'' # str_nat (nat (- i)) else str_nat (nat i))"

fun join :: "string \<Rightarrow> string list \<Rightarrow> string" where
  "join sep [] = []"
| "join sep [s] = s"
| "join sep (s # t # ss) = s @ sep @ join sep (t # ss)"

section \<open>Spans of a cell\<close>

text \<open>
  Line 60: \<open>int(gridSpan_el.get(qn('w:val'))) if gridSpan_el is not None else 1\<close>. Without
  a \<open>w:gridSpan\<close> element the span count is 1. With one, \<open>get\<close> returns the text of
  \<open>w:val\<close>, or \<open>None\<close> when the attribute is missing, and \<open>int\<close> raises \<open>TypeError\<close> for
  \<open>None\<close> and \<open>ValueError\<close> for a text that is no integer. Line 60 stands in no \<open>try\<close>
  block.
\<close>

definition get_colspan :: "cell \<Rightarrow> error + int" where
  "get_colspan cell =
     (case gridSpan cell of
        None \<Rightarrow> Inr 1
      | Some None \<Rightarrow> Inl TypeError
      | Some (Some NotInt) \<Rightarrow> Inl ValueError
      | Some (Some (IntText n)) \<Rightarrow> Inr n)"

text \<open>
  Lines 66 to 76: the loop over the rows below row \<open>r\<close>. The list argument holds the
  values of \<open>i\<close> still to come; the loop is left at the first row whose cell at column
  \<open>c\<close> is missing (\<open>IndexError\<close>, caught) or is not a \<open>w:vMerge\<close> without value.
\<close>

fun count_rowspan :: "table \<Rightarrow> int \<Rightarrow> nat \<Rightarrow> nat list \<Rightarrow> nat" where
  "count_rowspan tbl c rowspan [] = rowspan"
| "count_rowspan tbl c rowspan (i # is) =
     (case table_cell tbl i c of
        Inl e \<Rightarrow> rowspan
      | Inr next_cell \<Rightarrow>
          if vMerge next_cell = Some None
          then count_rowspan tbl c (rowspan + 1) is
          else rowspan)"

text \<open>Lines 63 to 76.\<close>

definition get_rowspan :: "table \<Rightarrow> nat \<Rightarrow> int \<Rightarrow> cell \<Rightarrow> nat" where
  "get_rowspan tbl r c cell =
     (if vMerge cell = Some (Some ''restart'')
      then count_rowspan tbl c 1 [r + 1 ..< length tbl]
      else 1)"

text \<open>Lines 80 to 82: every coordinate of the span is added to \<open>processed_cells\<close>.\<close>

definition mark_span :: "(nat \<times> int) set \<Rightarrow> nat \<Rightarrow> nat \<Rightarrow> int \<Rightarrow> int \<Rightarrow> (nat \<times> int) set" where
  "mark_span processed r rowspan c colspan =
     fold (\<lambda>i. fold (\<lambda>j. insert (i, j)) [c .. c + colspan - 1]) [r ..< r + rowspan] processed"

section \<open>Building the cell element\<close>

text \<open>Lines 86 to 94: the \<open>cell\<close> element with its attributes and text.\<close>

definition new_cell_el :: "cell \<Rightarrow> nat \<Rightarrow> int \<Rightarrow> xml" where
  "new_cell_el cell rowspan colspan =
     (let cell_el = Element ''cell'' [] None [];
          cell_el = (if rowspan > 1 then xml_set cell_el ''rowspan'' (str_nat rowspan) else cell_el);
          cell_el = (if colspan > 1 then xml_set cell_el ''colspan'' (str_int colspan) else cell_el)
      in set_text cell_el (join [CHR 0x0A] (paragraphs cell)))"

text \<open>
  Lines 96 to 98: the loop over \<open>cell.tables\<close>. The parameter \<open>rec\<close> is the recursive call
  \<open>process_table\<close>, which returns its first argument with the new \<open>table\<close> element
  appended.
\<close>

fun process_nested :: "(xml \<Rightarrow> table \<Rightarrow> xml result) \<Rightarrow> xml \<Rightarrow> table list \<Rightarrow> xml result" where
  "process_nested rec cell_el [] = Some (Inr cell_el)"
| "process_nested rec cell_el (nested_table # rest) =
     (case rec cell_el nested_table of
        None \<Rightarrow> None
      | Some (Inl e) \<Rightarrow> Some (Inl e)
      | Some (Inr cell_el') \<Rightarrow> process_nested rec cell_el' rest)"

definition build_cell :: "(xml \<Rightarrow> table \<Rightarrow> xml result) \<Rightarrow> cell \<Rightarrow> nat \<Rightarrow> int \<Rightarrow> xml result" where
  "build_cell rec cell rowspan colspan =
     process_nested rec (new_cell_el cell rowspan colspan) (tables cell)"

section \<open>The scan of a table\<close>

text \<open>
  A resolved cell: the coordinate at which the scan found it, its spans as computed, and
  the element appended to the row for it. The coordinate and the spans are what the
  source logs at line 95; they are kept beside the element so that the covered
  rectangles can be stated.
\<close>

datatype resolved =
  Resolved (r_row: nat) (r_col: int) (r_rowspan: nat) (r_colspan: int) (r_el: xml)

text \<open>
  Lines 42 to 100: the \<open>while\<close> loop over the column index \<open>c\<close> of row \<open>r\<close>. Each
  iteration takes one unit of fuel. The state of the loop is \<open>c\<close>, the set
  \<open>processed_cells\<close> and the cells appended to \<open>row_el\<close> so far. The \<open>IndexError\<close> of
  \<open>row.cells[c]\<close> is caught (lines 48 to 52) and ends the loop; an exception of line 60
  or of the processing of a nested table leaves the function.
\<close>

fun scan_row ::
  "(xml \<Rightarrow> table \<Rightarrow> xml result) \<Rightarrow> nat \<Rightarrow> table \<Rightarrow> nat \<Rightarrow> nat \<Rightarrow> row \<Rightarrow> int \<Rightarrow>
   (nat \<times> int) set \<Rightarrow> resolved list \<Rightarrow> (resolved list \<times> (nat \<times> int) set) result" where
  "scan_row rec 0 tbl n_cols r row c processed emitted =
     (if c < int n_cols then None else Some (Inr (emitted, processed)))"
| "scan_row rec (Suc fuel) tbl n_cols r row c processed emitted =
     (if c < int n_cols then
        if (r, c) \<in> processed
        then scan_row rec fuel tbl n_cols r row (c + 1) processed emitted
        else
          (case py_index row c of
             Inl e \<Rightarrow> Some (Inr (emitted, processed))
           | Inr cell \<Rightarrow>
               (case get_colspan cell of
                  Inl e \<Rightarrow> Some (Inl e)
                | Inr colspan \<Rightarrow>
                    (let rowspan = get_rowspan tbl r c cell;
                         processed' = mark_span processed r rowspan c colspan
                     in case build_cell rec cell rowspan colspan of
                          None \<Rightarrow> None
                        | Some (Inl e) \<Rightarrow> Some (Inl e)
                        | Some (Inr cell_el) \<Rightarrow>
                            scan_row rec fuel tbl n_cols r row (c + colspan) processed'
                              (emitted @ [Resolved r c rowspan colspan cell_el]))))
      else Some (Inr (emitted, processed)))"

text \<open>
  Lines 39 to 100: the \<open>for\<close> loop over \<open>enumerate(table.rows)\<close>. The list argument holds
  the rows still to come and \<open>r\<close> is the index of the first of them. Every row yields one
  list of resolved cells, empty or not.
\<close>

fun process_rows ::
  "(xml \<Rightarrow> table \<Rightarrow> xml result) \<Rightarrow> nat \<Rightarrow> table \<Rightarrow> nat \<Rightarrow> nat \<Rightarrow> row list \<Rightarrow>
   (nat \<times> int) set \<Rightarrow> resolved list list \<Rightarrow> (resolved list list \<times> (nat \<times> int) set) result" where
  "process_rows rec fuel tbl n_cols r [] processed done = Some (Inr (done, processed))"
| "process_rows rec fuel tbl n_cols r (row # rest) processed done =
     (case scan_row rec fuel tbl n_cols r row 0 processed [] of
        None \<Rightarrow> None
      | Some (Inl e) \<Rightarrow> Some (Inl e)
      | Some (Inr (emitted, processed')) \<Rightarrow>
          process_rows rec fuel tbl n_cols (r + 1) rest processed' (done @ [emitted]))"

text \<open>Line 37: \<open>max\<close> of the row lengths; \<open>max\<close> of an empty sequence raises \<open>ValueError\<close>.\<close>

fun py_max :: "nat list \<Rightarrow> error + nat" where
  "py_max [] = Inl ValueError"
| "py_max (x # xs) = Inr (fold max xs x)"

text \<open>
  Lines 34 to 100 without the element tree: the rows of resolved cells of one table,
  starting from an empty \<open>processed_cells\<close>.
\<close>

definition resolve_table ::
  "(xml \<Rightarrow> table \<Rightarrow> xml result) \<Rightarrow> nat \<Rightarrow> table \<Rightarrow> (resolved list list \<times> (nat \<times> int) set) result" where
  "resolve_table rec fuel tbl =
     (case py_max (map length tbl) of
        Inl e \<Rightarrow> Some (Inl e)
      | Inr n_cols \<Rightarrow> process_rows rec fuel tbl n_cols 0 tbl {} [])"

definition row_el :: "resolved list \<Rightarrow> xml" where
  "row_el emitted = Element ''row'' [] None (map r_el emitted)"

definition table_el :: "resolved list list \<Rightarrow> xml" where
  "table_el rws = Element ''table'' [] None (map row_el rws)"

text \<open>
  \<open>process_table(parent_el, table)\<close>. The fuel bounds the iterations of each \<open>while\<close> loop
  and the depth of the recursion into nested tables. The source appends the empty
  \<open>table\<close> element at line 32, before \<open>max\<close> is computed; no caller catches the
  exceptions of \<open>process_table\<close>, so the tree is lost with them and only the exception
  is kept here.
\<close>

primrec process_table :: "nat \<Rightarrow> xml \<Rightarrow> table \<Rightarrow> xml result" where
  "process_table 0 = (\<lambda>parent_el tbl. None)"
| "process_table (Suc fuel) = (\<lambda>parent_el tbl.
     case resolve_table (process_table fuel) fuel tbl of
       None \<Rightarrow> None
     | Some (Inl e) \<Rightarrow> Some (Inl e)
     | Some (Inr (rws, processed)) \<Rightarrow> Some (Inr (append_child parent_el (table_el rws))))"

section \<open>Notions used in the statements\<close>

text \<open>
  The rectangle of grid coordinates that a resolved cell claims: \<open>rowspan\<close> rows from its
  row on, \<open>colspan\<close> columns from its column on.
\<close>

definition rect :: "resolved \<Rightarrow> (nat \<times> int) set" where
  "rect e = {r_row e ..< r_row e + r_rowspan e} \<times> {r_col e ..< r_col e + r_colspan e}"

text \<open>
  A resolved cell \<open>e\<close> of a row comes from the raw cell the row holds at the column of
  \<open>e\<close>: its spans are the ones computed for that raw cell, and its element is the one
  built for it.
\<close>

definition from_cell :: "(xml \<Rightarrow> table \<Rightarrow> xml result) \<Rightarrow> table \<Rightarrow> row \<Rightarrow> resolved \<Rightarrow> bool" where
  "from_cell rec tbl row e =
     (case py_index row (r_col e) of
        Inl err \<Rightarrow> False
      | Inr cell \<Rightarrow>
          get_colspan cell = Inr (r_colspan e) \<and>
          r_rowspan e = get_rowspan tbl (r_row e) (r_col e) cell \<and>
          build_cell rec cell (r_rowspan e) (r_colspan e) = Some (Inr (r_el e)))"

text \<open>
  A list of resolved cells, in the order of their emission, is fresh for a set of
  occupied coordinates when every cell starts at a coordinate that neither the set nor
  the rectangle of an earlier cell of the list contains.
\<close>

fun fresh :: "(nat \<times> int) set \<Rightarrow> resolved list \<Rightarrow> bool" where
  "fresh P [] = True"
| "fresh P (e # es) = ((r_row e, r_col e) \<notin> P \<and> fresh (P \<union> rect e) es)"

text \<open>The order of emission: by rows, and within a row past the columns of the span.\<close>

definition precedes :: "resolved \<Rightarrow> resolved \<Rightarrow> bool" where
  "precedes a b = (r_row a < r_row b \<or> (r_row a = r_row b \<and> r_col a + r_colspan a \<le> r_col b))"

text \<open>The coordinate and spans of a resolved cell, without its element.\<close>

definition spans :: "resolved \<Rightarrow> nat \<times> int \<times> nat \<times> int" where
  "spans e = (r_row e, r_col e, r_rowspan e, r_colspan e)"

text \<open>
  The data model of the spec gives every raw cell a span count of at least 1: line 60
  yields an integer, and the integer is at least 1. The source does not check it;
  \<open>span_count_ok\<close> states it for a cell, \<open>top_spans_ok\<close> for the cells of one table, and
  \<open>table_spans_ok\<close> for the cells of the tables nested in them as well.
\<close>

definition span_count_ok :: "cell \<Rightarrow> bool" where
  "span_count_ok cell = (case get_colspan cell of Inl e \<Rightarrow> False | Inr n \<Rightarrow> 1 \<le> n)"

definition top_spans_ok :: "table \<Rightarrow> bool" where
  "top_spans_ok tbl = (\<forall>row \<in> set tbl. \<forall>cell \<in> set row. span_count_ok cell)"









text \<open>
  One processor of nested tables returns whatever another one returns; the scan of a
  row is ready to return when the span counts of the row are positive and the nested
  tables of its cells are processed to an end; a table is processed to an end from a
  given amount of fuel on.
\<close>

definition rec_le ::
  "(xml \<Rightarrow> table \<Rightarrow> xml result) \<Rightarrow> (xml \<Rightarrow> table \<Rightarrow> xml result) \<Rightarrow> bool" where
  "rec_le rec rec' = (\<forall>el t y. rec el t = Some y \<longrightarrow> rec' el t = Some y)"



text \<open>
  The vertical-merge directives in the words of the spec: a cell is a start when its
  \<open>w:vMerge\<close> has the value \<open>restart\<close>, and a continuation when its \<open>w:vMerge\<close> has no
  value. \<open>continuation_run tbl r c\<close> counts the contiguous rows immediately below row
  \<open>r\<close> whose cell at column \<open>c\<close> is a continuation, up to the first row that has no such
  cell or to the end of the table.
\<close>

definition is_start :: "cell \<Rightarrow> bool" where
  "is_start cell = (vMerge cell = Some (Some ''restart''))"

definition is_continuation :: "cell \<Rightarrow> bool" where
  "is_continuation cell = (vMerge cell = Some None)"

definition continuation_at :: "table \<Rightarrow> int \<Rightarrow> nat \<Rightarrow> bool" where
  "continuation_at tbl c i =
     (case table_cell tbl i c of Inl e \<Rightarrow> False | Inr cell \<Rightarrow> is_continuation cell)"

definition continuation_run :: "table \<Rightarrow> nat \<Rightarrow> int \<Rightarrow> nat" where
  "continuation_run tbl r c = length (takeWhile (continuation_at tbl c) [r + 1 ..< length tbl])"

section \<open>Example tables\<close>

text \<open>
  A table of three rows and three columns: the first cell spans two columns and starts
  a vertical merge that the second row continues, it holds two paragraphs and a nested
  table, and the last row is ragged.
\<close>

definition demo_nested :: table where
  "demo_nested = [[Cell None None [''x''] []]]"

definition demo_cell :: cell where
  "demo_cell = Cell (Some (Some (IntText 2))) (Some (Some ''restart'')) [''a'', ''b''] [demo_nested]"

definition demo_table :: table where
  "demo_table =
     [[demo_cell,
       Cell None None [] [],
       Cell None None [''c''] []],
      [Cell (Some (Some (IntText 2))) (Some None) [] [],
       Cell None None [] [],
       Cell None None [''e''] []],
      [Cell None None [''f''] []]]"

definition demo_first :: resolved where
  "demo_first =
     Resolved 0 0 2 2
       (Element ''cell'' [(''rowspan'', ''2''), (''colspan'', ''2'')]
          (Some (''a'' @ [CHR 0x0A] @ ''b''))
          [Element ''table'' [] None [Element ''row'' [] None [Element ''cell'' [] (Some ''x'') []]]])"

definition demo_rows :: "resolved list list" where
  "demo_rows =
     [[demo_first, Resolved 0 2 1 1 (Element ''cell'' [] (Some ''c'') [])],
      [Resolved 1 2 1 1 (Element ''cell'' [] (Some ''e'') [])],
      [Resolved 2 0 1 1 (Element ''cell'' [] (Some ''f'') [])]]"

definition demo_processed :: "(nat \<times> int) set" where
  "demo_processed = {(2, 0), (1, 2), (0, 2), (1, 1), (1, 0), (0, 1), (0, 0)}"


text \<open>
  A table of two rows and two columns whose merge directives contradict each other: the
  second cell of the first row starts a vertical merge that the second row continues at
  column 1, while the first cell of the second row spans both columns.
\<close>

definition clash_table :: table where
  "clash_table =
     [[Cell None None [''p''] [], Cell None (Some (Some ''restart'')) [''q''] []],
      [Cell (Some (Some (IntText 2))) None [''s''] [], Cell None (Some None) [] []]]"

definition clash_tall :: resolved where
  "clash_tall = Resolved 0 1 2 1 (Element ''cell'' [(''rowspan'', ''2'')] (Some ''q'') [])"

definition clash_wide :: resolved where
  "clash_wide = Resolved 1 0 1 2 (Element ''cell'' [(''colspan'', ''2'')] (Some ''s'') [])"

definition clash_rows :: "resolved list list" where
  "clash_rows =
     [[Resolved 0 0 1 1 (Element ''cell'' [] (Some ''p'') []), clash_tall], [clash_wide]]"

text \<open>
  The scenario of the spec: three rows of one column, a vertical-merge start followed by
  two continuations.
\<close>

definition vmerge_table :: table where
  "vmerge_table =
     [[Cell None (Some (Some ''restart'')) [''v''] []],
      [Cell None (Some None) [] []],
      [Cell None (Some None) [] []]]"

definition vmerge_rows :: "resolved list list" where
  "vmerge_rows =
     [[Resolved 0 0 3 1 (Element ''cell'' [(''rowspan'', ''3'')] (Some ''v'') [])], [], []]"




definition document :: xml where
  "document = Element ''document'' [] None []"


section \<open>Properties of the scan\<close>

lemma fold_insert_row: "fold (\<lambda>j. insert (i, j)) js P = P \<union> {i} \<times> set js"
  by (induction js arbitrary: P) auto

lemma fold_insert_rows:
  "fold (\<lambda>i. fold (\<lambda>j. insert (i, j)) js) is P = P \<union> set is \<times> set js"
  by (induction "is" arbitrary: P) (auto simp: fold_insert_row)

lemma mark_span_eq:
  "mark_span P r rowspan c colspan = P \<union> {r ..< r + rowspan} \<times> {c ..< c + colspan}"
  unfolding mark_span_def fold_insert_rows by auto

lemma scan_row_SucE:
  assumes "scan_row rec (Suc f) tbl n r row c P acc = Some (Inr res)"
  obtains (finished) "\<not> c < int n" "res = (acc, P)"
  | (skip) "c < int n" "(r, c) \<in> P"
      "scan_row rec f tbl n r row (c + 1) P acc = Some (Inr res)"
  | (ragged) "c < int n" "(r, c) \<notin> P" "py_index row c = Inl IndexError" "res = (acc, P)"
  | (emit) cell el cs where "c < int n" "(r, c) \<notin> P" "py_index row c = Inr cell"
      "build_cell rec cell (get_rowspan tbl r c cell) cs = Some (Inr el)"
      "scan_row rec f tbl n r row (c + cs)
         (mark_span P r (get_rowspan tbl r c cell) c cs)
         (acc @ [Resolved r c (get_rowspan tbl r c cell) cs el]) = Some (Inr res)"
      "get_colspan cell = Inr cs"
  using assms
  by (auto simp: Let_def py_index_def split: if_splits sum.splits option.splits)

lemma fresh_append:
  "fresh P (xs @ ys) = (fresh P xs \<and> fresh (P \<union> \<Union>(rect ` set xs)) ys)"
  by (induction xs arbitrary: P) (auto simp: Un_assoc)

lemma scan_row_0: 
  "scan_row rec 0 tbl n r row c P acc = Some (Inr res) \<Longrightarrow> \<not> c < int n \<and> res = (acc, P)"
  by (auto split: if_splits)

lemma scan_row_new:
  assumes "scan_row rec f tbl n r row c P acc = Some (Inr (acc', P'))"
  shows "\<exists>new. acc' = acc @ new \<and> P' = P \<union> \<Union>(rect ` set new) \<and> fresh P new \<and>
               (\<forall>e \<in> set new. r_row e = r \<and> from_cell rec tbl row e)"
  using assms
proof (induction f arbitrary: c P acc)
  case 0
  then show ?case by (auto split: if_splits)
next
  case (Suc f)
  from Suc.prems show ?case
  proof (cases rule: scan_row_SucE)
    case finished
    then show ?thesis by simp
  next
    case skip
    then show ?thesis using Suc.IH by blast
  next
    case ragged
    then show ?thesis by simp
  next
    case (emit cell el cs)
    let ?e = "Resolved r c (get_rowspan tbl r c cell) cs el"
    from Suc.IH [OF emit(5)] obtain new where
      new: "acc' = (acc @ [?e]) @ new"
        "P' = mark_span P r (get_rowspan tbl r c cell) c cs \<union> \<Union>(rect ` set new)"
        "fresh (mark_span P r (get_rowspan tbl r c cell) c cs) new"
        "\<forall>e \<in> set new. r_row e = r \<and> from_cell rec tbl row e"
      by blast
    have m: "mark_span P r (get_rowspan tbl r c cell) c cs = P \<union> rect ?e"
      by (simp add: mark_span_eq rect_def)
    have fc: "from_cell rec tbl row ?e"
      using emit(3,4,6) by (simp add: from_cell_def)
    show ?thesis
    proof (intro exI conjI)
      show "acc' = acc @ (?e # new)" using new(1) by simp
      show "P' = P \<union> \<Union>(rect ` set (?e # new))" using new(2) m by auto
      show "fresh P (?e # new)" using new(3) m emit(2) by simp
      show "\<forall>e \<in> set (?e # new). r_row e = r \<and> from_cell rec tbl row e"
        using new(4) fc by simp
    qed
  qed
qed

lemma py_index_mem: "py_index xs i = Inr x \<Longrightarrow> x \<in> set xs"
  by (auto simp: py_index_def split: if_splits)

lemma py_index_nonneg: "0 \<le> i \<Longrightarrow> py_index xs i = Inl e \<Longrightarrow> int (length xs) \<le> i"
  by (auto simp: py_index_def split: if_splits)

lemma count_rowspan_ge: "k \<le> count_rowspan tbl c k is"
proof (induction "is" arbitrary: k)
  case Nil
  show ?case by simp
next
  case (Cons i "is")
  from Cons [of "k + 1"] show ?case
    by (auto split: sum.splits)
qed

lemma get_rowspan_pos: "1 \<le> get_rowspan tbl r c cell"
  using count_rowspan_ge [of 1] by (simp add: get_rowspan_def)

lemma scan_row_order:
  assumes "scan_row rec f tbl n r row c P acc = Some (Inr (acc @ new, P'))"
    and "\<forall>cell \<in> set row. span_count_ok cell"
  shows "(\<forall>e \<in> set new. c \<le> r_col e \<and> 1 \<le> r_colspan e) \<and>
         sorted_wrt (\<lambda>a b. r_col a + r_colspan a \<le> r_col b) new"
  using assms(1)
proof (induction f arbitrary: c P acc new)
  case 0
  then show ?case by (auto split: if_splits)
next
  case (Suc f)
  from Suc.prems show ?case
  proof (cases rule: scan_row_SucE)
    case finished
    then show ?thesis by simp
  next
    case skip
    from Suc.IH [OF skip(3)] show ?thesis by force
  next
    case ragged
    then show ?thesis by simp
  next
    case (emit cell el cs)
    let ?e = "Resolved r c (get_rowspan tbl r c cell) cs el"
    from scan_row_new [OF emit(5)] obtain new' where
      new': "acc @ new = (acc @ [?e]) @ new'" by blast
    then have eq: "new = ?e # new'" by simp
    have pos: "1 \<le> cs"
      using assms(2) py_index_mem [OF emit(3)] emit(6) by (fastforce simp: span_count_ok_def)
    from emit(5) have "scan_row rec f tbl n r row (c + cs)
         (mark_span P r (get_rowspan tbl r c cell) c cs)
         (acc @ [?e]) = Some (Inr ((acc @ [?e]) @ new', P'))"
      using new' by simp
    from Suc.IH [OF this] have
      ih: "\<forall>e \<in> set new'. c + cs \<le> r_col e \<and> 1 \<le> r_colspan e"
        "sorted_wrt (\<lambda>a b. r_col a + r_colspan a \<le> r_col b) new'"
      by blast+
    show ?thesis
      unfolding eq using ih pos by auto
  qed
qed

lemma scan_row_cover:
  assumes "scan_row rec f tbl n r row c P acc = Some (Inr (acc', P'))"
    and "\<forall>cell \<in> set row. span_count_ok cell"
    and "0 \<le> c"
  shows "\<forall>j. c \<le> j \<and> j < int n \<longrightarrow> (r, j) \<in> P' \<or> int (length row) \<le> j"
  using assms(1,3)
proof (induction f arbitrary: c P acc)
  case 0
  then show ?case by (auto split: if_splits)
next
  case (Suc f)
  from Suc.prems(1) show ?case
  proof (cases rule: scan_row_SucE)
    case finished
    then show ?thesis by simp
  next
    case skip
    from scan_row_new [OF skip(3)] have "P \<subseteq> P'" by blast
    moreover from Suc.IH [OF skip(3)] Suc.prems(2)
    have "\<forall>j. c + 1 \<le> j \<and> j < int n \<longrightarrow> (r, j) \<in> P' \<or> int (length row) \<le> j" by simp
    ultimately show ?thesis
      using skip(2) by (metis add.commute less_le subsetD zless_imp_add1_zle)
  next
    case ragged
    with py_index_nonneg [OF Suc.prems(2)] show ?thesis by fastforce
  next
    case (emit cell el cs)
    let ?P1 = "mark_span P r (get_rowspan tbl r c cell) c cs"
    have pos: "1 \<le> cs"
      using assms(2) py_index_mem [OF emit(3)] emit(6) by (fastforce simp: span_count_ok_def)
    from scan_row_new [OF emit(5)] have sub: "?P1 \<subseteq> P'" by blast
    from Suc.IH [OF emit(5)] Suc.prems(2) pos
    have ih: "\<forall>j. c + cs \<le> j \<and> j < int n \<longrightarrow> (r, j) \<in> P' \<or> int (length row) \<le> j"
      by simp
    have here: "\<forall>j. c \<le> j \<and> j < c + cs \<longrightarrow> (r, j) \<in> ?P1"
      using get_rowspan_pos [of tbl r c cell] by (auto simp: mark_span_eq)
    show ?thesis
    proof (intro allI impI)
      fix j assume j: "c \<le> j \<and> j < int n"
      show "(r, j) \<in> P' \<or> int (length row) \<le> j"
      proof (cases "j < c + cs")
        case True
        with j here sub show ?thesis by blast
      next
        case False
        with j ih show ?thesis by simp
      qed
    qed
  qed
qed

lemma process_rows_new:
  assumes "process_rows rec f tbl n r rws P done = Some (Inr (done', P'))"
  shows "\<exists>new. done' = done @ new \<and> length new = length rws \<and>
               P' = P \<union> \<Union>(rect ` set (concat new)) \<and> fresh P (concat new) \<and>
               (\<forall>k < length rws. \<forall>e \<in> set (new ! k). r_row e = r + k \<and> from_cell rec tbl (rws ! k) e)"
  using assms
proof (induction rws arbitrary: r P "done")
  case Nil
  then show ?case by simp
next
  case (Cons row rest)
  from Cons.prems obtain emitted P1 where
    scan: "scan_row rec f tbl n r row 0 P [] = Some (Inr (emitted, P1))" and
    rest: "process_rows rec f tbl n (r + 1) rest P1 (done @ [emitted]) = Some (Inr (done', P'))"
    by (auto split: option.splits sum.splits)
  from scan_row_new [OF scan] have
    s: "P1 = P \<union> \<Union>(rect ` set emitted)" "fresh P emitted"
       "\<forall>e \<in> set emitted. r_row e = r \<and> from_cell rec tbl row e"
    by auto
  from Cons.IH [OF rest] obtain new where
    new: "done' = (done @ [emitted]) @ new" "length new = length rest"
      "P' = P1 \<union> \<Union>(rect ` set (concat new))" "fresh P1 (concat new)"
      "\<forall>k < length rest. \<forall>e \<in> set (new ! k). r_row e = r + 1 + k \<and> from_cell rec tbl (rest ! k) e"
    by blast
  show ?case
  proof (intro exI conjI)
    show "done' = done @ (emitted # new)" using new(1) by simp
    show "length (emitted # new) = length (row # rest)" using new(2) by simp
    show "P' = P \<union> \<Union>(rect ` set (concat (emitted # new)))"
      using new(3) s(1) by auto
    show "fresh P (concat (emitted # new))"
      using new(4) s(1,2) by (simp add: fresh_append)
    show "\<forall>k < length (row # rest). \<forall>e \<in> set ((emitted # new) ! k).
            r_row e = r + k \<and> from_cell rec tbl ((row # rest) ! k) e"
    proof (intro allI impI)
      fix k assume "k < length (row # rest)"
      then show "\<forall>e \<in> set ((emitted # new) ! k). r_row e = r + k \<and> from_cell rec tbl ((row # rest) ! k) e"
        using s(3) new(5) by (cases k) auto
    qed
  qed
qed

lemma process_rows_order:
  assumes "process_rows rec f tbl n r rws P done = Some (Inr (done @ new, P'))"
    and "\<forall>row \<in> set rws. \<forall>cell \<in> set row. span_count_ok cell"
  shows "(\<forall>e \<in> set (concat new). r \<le> r_row e \<and> 0 \<le> r_col e \<and> 1 \<le> r_colspan e) \<and>
         sorted_wrt precedes (concat new)"
  using assms
proof (induction rws arbitrary: r P "done" new)
  case Nil
  then show ?case by simp
next
  case (Cons row rest)
  from Cons.prems(1) obtain emitted P1 where
    scan: "scan_row rec f tbl n r row 0 P [] = Some (Inr (emitted, P1))" and
    rest: "process_rows rec f tbl n (r + 1) rest P1 (done @ [emitted]) = Some (Inr (done @ new, P'))"
    by (auto split: option.splits sum.splits)
  from process_rows_new [OF rest] obtain new' where
    "done @ new = (done @ [emitted]) @ new'" by blast
  then have eq: "new = emitted # new'" by simp
  from scan_row_new [OF scan] have rw: "\<forall>e \<in> set emitted. r_row e = r" by auto
  from scan have "scan_row rec f tbl n r row 0 P [] = Some (Inr ([] @ emitted, P1))" by simp
  from scan_row_order [OF this] Cons.prems(2) have
    so: "\<forall>e \<in> set emitted. 0 \<le> r_col e \<and> 1 \<le> r_colspan e"
        "sorted_wrt (\<lambda>a b. r_col a + r_colspan a \<le> r_col b) emitted"
    by auto
  from rest eq have "process_rows rec f tbl n (r + 1) rest P1 (done @ [emitted]) =
      Some (Inr ((done @ [emitted]) @ new', P'))" by simp
  from Cons.IH [OF this] Cons.prems(2) have
    ih: "\<forall>e \<in> set (concat new'). r + 1 \<le> r_row e \<and> 0 \<le> r_col e \<and> 1 \<le> r_colspan e"
        "sorted_wrt precedes (concat new')"
    by auto
  have a: "sorted_wrt precedes emitted"
    using so(2) rw by (auto simp: sorted_wrt_iff_nth_less precedes_def)
  have b: "\<forall>x \<in> set emitted. \<forall>y \<in> set (concat new'). precedes x y"
    using rw ih(1) by (fastforce simp: precedes_def)
  have c: "\<forall>e \<in> set (concat new'). r \<le> r_row e \<and> 0 \<le> r_col e \<and> 1 \<le> r_colspan e"
  proof
    fix e assume "e \<in> set (concat new')"
    with ih(1) have "r + 1 \<le> r_row e \<and> 0 \<le> r_col e \<and> 1 \<le> r_colspan e" by blast
    then show "r \<le> r_row e \<and> 0 \<le> r_col e \<and> 1 \<le> r_colspan e" by simp
  qed
  have d: "\<forall>e \<in> set emitted. r \<le> r_row e \<and> 0 \<le> r_col e \<and> 1 \<le> r_colspan e"
    using so(1) rw by auto
  have "concat new = emitted @ concat new'" unfolding eq by simp
  then show ?case
    using a b c d ih(2) by (simp add: sorted_wrt_append ball_Un)
qed

lemma process_rows_cover:
  assumes "process_rows rec f tbl n r rws P done = Some (Inr (done', P'))"
    and "\<forall>row \<in> set rws. \<forall>cell \<in> set row. span_count_ok cell"
  shows "\<forall>k < length rws. \<forall>j. 0 \<le> j \<and> j < int n \<longrightarrow>
           (r + k, j) \<in> P' \<or> int (length (rws ! k)) \<le> j"
  using assms
proof (induction rws arbitrary: r P "done")
  case Nil
  then show ?case by simp
next
  case (Cons row rest)
  from Cons.prems(1) obtain emitted P1 where
    scan: "scan_row rec f tbl n r row 0 P [] = Some (Inr (emitted, P1))" and
    rest: "process_rows rec f tbl n (r + 1) rest P1 (done @ [emitted]) = Some (Inr (done', P'))"
    by (auto split: option.splits sum.splits)
  from process_rows_new [OF rest] have sub: "P1 \<subseteq> P'" by blast
  from scan_row_cover [OF scan] Cons.prems(2) have
    here: "\<forall>j. 0 \<le> j \<and> j < int n \<longrightarrow> (r, j) \<in> P1 \<or> int (length row) \<le> j" by simp
  from Cons.IH [OF rest] Cons.prems(2) have
    ih: "\<forall>k < length rest. \<forall>j. 0 \<le> j \<and> j < int n \<longrightarrow>
           (r + 1 + k, j) \<in> P' \<or> int (length (rest ! k)) \<le> j" by simp
  show ?case
  proof (intro allI impI)
    fix k j assume k: "k < length (row # rest)" and j: "0 \<le> j \<and> j < int n"
    show "(r + k, j) \<in> P' \<or> int (length ((row # rest) ! k)) \<le> j"
    proof (cases k)
      case 0
      with here j sub show ?thesis by auto
    next
      case (Suc k')
      with k ih j show ?thesis by auto
    qed
  qed
qed

lemma process_nested_mono:
  "rec_le rec rec' \<Longrightarrow> process_nested rec el ts = Some y \<Longrightarrow> process_nested rec' el ts = Some y"
proof (induction ts arbitrary: el)
  case Nil
  then show ?case by simp
next
  case (Cons t ts)
  then show ?case
    by (auto simp: rec_le_def split: option.splits sum.splits)
qed

lemma build_cell_mono:
  "rec_le rec rec' \<Longrightarrow> build_cell rec cell rs cs = Some y \<Longrightarrow> build_cell rec' cell rs cs = Some y"
  unfolding build_cell_def by (rule process_nested_mono)

lemma scan_row_mono:
  assumes "rec_le rec rec'"
  shows "f \<le> f' \<Longrightarrow> scan_row rec f tbl n r row c P acc = Some y \<Longrightarrow>
         scan_row rec' f' tbl n r row c P acc = Some y"
proof (induction f arbitrary: f' c P acc)
  case 0
  then show ?case by (cases f') (auto split: if_splits)
next
  case (Suc f)
  from Suc.prems(1) obtain g where f': "f' = Suc g" and le: "f \<le> g"
    by (cases f') auto
  show ?case
  proof (cases "c < int n")
    case False
    with Suc.prems(2) f' show ?thesis by simp
  next
    case inside: True
    show ?thesis
    proof (cases "(r, c) \<in> P")
      case True
      with inside Suc.prems(2) have "scan_row rec f tbl n r row (c + 1) P acc = Some y" by simp
      from Suc.IH [OF le this] inside True f' show ?thesis by simp
    next
      case False
      show ?thesis
      proof (cases "py_index row c")
        case (Inl e)
        with inside False Suc.prems(2) f' show ?thesis by simp
      next
        case cell: (Inr cell)
        show ?thesis
        proof (cases "get_colspan cell")
          case (Inl e)
          with inside False cell Suc.prems(2) f' show ?thesis by simp
        next
          case span: (Inr cs)
          let ?rs = "get_rowspan tbl r c cell"
          show ?thesis
          proof (cases "build_cell rec cell ?rs cs")
            case None
            with inside False cell span Suc.prems(2) show ?thesis by (simp add: Let_def)
          next
            case (Some b)
            note b' = build_cell_mono [OF assms Some]
            show ?thesis
            proof (cases b)
              case (Inl e)
              with inside False cell span Some b' Suc.prems(2) f' show ?thesis by (simp add: Let_def)
            next
              case (Inr el)
              with inside False cell span Some Suc.prems(2)
              have "scan_row rec f tbl n r row (c + cs) (mark_span P r ?rs c cs)
                      (acc @ [Resolved r c ?rs cs el]) = Some y"
                by (simp add: Let_def)
              from Suc.IH [OF le this] inside False cell span b' Inr f'
              show ?thesis by (simp add: Let_def)
            qed
          qed
        qed
      qed
    qed
  qed
qed


lemma process_rows_mono:
  assumes "rec_le rec rec'" and "f \<le> f'"
  shows "process_rows rec f tbl n r rws P done = Some y \<Longrightarrow>
         process_rows rec' f' tbl n r rws P done = Some y"
proof (induction rws arbitrary: r P "done")
  case Nil
  then show ?case by simp
next
  case (Cons row rest)
  show ?case
  proof (cases "scan_row rec f tbl n r row 0 P []")
    case None
    with Cons.prems show ?thesis by simp
  next
    case (Some s)
    note s' = scan_row_mono [OF assms Some]
    show ?thesis
    proof (cases s)
      case (Inl e)
      with Some s' Cons.prems show ?thesis by simp
    next
      case (Inr p)
      obtain emitted P1 where p: "p = (emitted, P1)" by (cases p)
      from Cons.prems Some Inr p
      have "process_rows rec f tbl n (r + 1) rest P1 (done @ [emitted]) = Some y" by simp
      from Cons.IH [OF this] s' Inr p show ?thesis by simp
    qed
  qed
qed

lemma resolve_table_mono:
  assumes "rec_le rec rec'" and "f \<le> f'"
  shows "resolve_table rec f tbl = Some y \<Longrightarrow> resolve_table rec' f' tbl = Some y"
  unfolding resolve_table_def
  using process_rows_mono [OF assms] by (auto split: sum.splits)

lemma process_table_mono:
  "f \<le> f' \<Longrightarrow> process_table f p tbl = Some y \<Longrightarrow> process_table f' p tbl = Some y"
proof (induction f arbitrary: f' p tbl y)
  case 0
  then show ?case by simp
next
  case (Suc f)
  from Suc.prems(1) obtain g where f': "f' = Suc g" and le: "f \<le> g"
    by (cases f') auto
  have rl: "rec_le (process_table f) (process_table g)"
    unfolding rec_le_def using Suc.IH [OF le] by blast
  note m = resolve_table_mono [OF rl le]
  show ?case
  proof (cases "resolve_table (process_table f) f tbl")
    case None
    with Suc.prems(2) show ?thesis by simp
  next
    case (Some s)
    from m [OF Some] Some Suc.prems(2) f' show ?thesis by simp
  qed
qed

lemma process_table_functional:
  assumes "process_table f1 p tbl = Some a" and "process_table f2 p tbl = Some b"
  shows "a = b"
proof -
  have "process_table (max f1 f2) p tbl = Some a"
    using assms(1) by (rule process_table_mono [rotated]) simp
  moreover have "process_table (max f1 f2) p tbl = Some b"
    using assms(2) by (rule process_table_mono [rotated]) simp
  ultimately show ?thesis by simp
qed











lemma resolve_table_rows:
  assumes "resolve_table rec f tbl = Some (Inr (rws, P))"
  obtains n where "py_max (map length tbl) = Inr n"
    and "process_rows rec f tbl n 0 tbl {} [] = Some (Inr (rws, P))"
  using assms unfolding resolve_table_def by (auto split: sum.splits)

lemma resolve_table_new:
  assumes "resolve_table rec f tbl = Some (Inr (rws, P))"
  shows "length rws = length tbl" and "P = \<Union>(rect ` set (concat rws))"
    and "fresh {} (concat rws)"
    and "\<forall>k < length tbl. \<forall>e \<in> set (rws ! k). r_row e = k \<and> from_cell rec tbl (tbl ! k) e"
proof -
  from assms obtain n where "process_rows rec f tbl n 0 tbl {} [] = Some (Inr (rws, P))"
    by (rule resolve_table_rows)
  from process_rows_new [OF this] obtain new where
    new: "rws = [] @ new" "length new = length tbl" "P = {} \<union> \<Union>(rect ` set (concat new))"
      "fresh {} (concat new)"
      "\<forall>k < length tbl. \<forall>e \<in> set (new ! k). r_row e = 0 + k \<and> from_cell rec tbl (tbl ! k) e"
    by blast
  from new show "length rws = length tbl" "P = \<Union>(rect ` set (concat rws))"
    "fresh {} (concat rws)"
    "\<forall>k < length tbl. \<forall>e \<in> set (rws ! k). r_row e = k \<and> from_cell rec tbl (tbl ! k) e"
    by simp_all
qed

lemma table_cell_row: "r < length tbl \<Longrightarrow> table_cell tbl r c = py_index (tbl ! r) c"
  by (simp add: table_cell_def py_index_def)

lemma resolved_cell_source:
  assumes "resolve_table rec f tbl = Some (Inr (rws, P))" and "e \<in> set (concat rws)"
  shows "r_row e < length tbl \<and> e \<in> set (rws ! r_row e) \<and>
         (\<exists>cell. table_cell tbl (r_row e) (r_col e) = Inr cell \<and>
            get_colspan cell = Inr (r_colspan e) \<and>
            r_rowspan e = get_rowspan tbl (r_row e) (r_col e) cell \<and>
            build_cell rec cell (r_rowspan e) (r_colspan e) = Some (Inr (r_el e)))"
proof -
  note facts = resolve_table_new [OF assms(1)]
  from assms(2) obtain row where "row \<in> set rws" "e \<in> set row" by auto
  then obtain k where k: "k < length rws" "e \<in> set (rws ! k)"
    by (auto simp: in_set_conv_nth)
  with facts(1,4) have rk: "r_row e = k" and fc: "from_cell rec tbl (tbl ! k) e" by auto
  from k(1) facts(1) have lt: "k < length tbl" by simp
  from fc obtain cell where "py_index (tbl ! k) (r_col e) = Inr cell"
    "get_colspan cell = Inr (r_colspan e)"
    "r_rowspan e = get_rowspan tbl (r_row e) (r_col e) cell"
    "build_cell rec cell (r_rowspan e) (r_colspan e) = Some (Inr (r_el e))"
    by (auto simp: from_cell_def split: sum.splits)
  with rk lt k(2) show ?thesis by (auto simp: table_cell_row)
qed

lemma count_rowspan_run:
  "count_rowspan tbl c k is = k + length (takeWhile (continuation_at tbl c) is)"
proof (induction "is" arbitrary: k)
  case Nil
  show ?case by simp
next
  case (Cons i "is")
  show ?case
    by (simp add: Cons continuation_at_def is_continuation_def split: sum.splits)
qed

lemma run_exact:
  assumes "r + k < n" and "\<forall>i. r < i \<and> i \<le> r + k \<longrightarrow> p i"
    and "r + k + 1 < n \<longrightarrow> \<not> p (r + k + 1)"
  shows "length (takeWhile p [r + 1 ..< n]) = k"
proof -
  obtain d where n: "n = (r + k + 1) + d" using assms(1) by (metis Suc_eq_plus1 Suc_leI le_Suc_ex)
  have split: "[r + 1 ..< n] = [r + 1 ..< r + k + 1] @ [r + k + 1 ..< n]"
    unfolding n by (rule upt_add_eq_append) simp
  have all: "\<And>x. x \<in> set [r + 1 ..< r + k + 1] \<Longrightarrow> p x"
  proof -
    fix x assume "x \<in> set [r + 1 ..< r + k + 1]"
    then have "r < x \<and> x \<le> r + k" by auto
    with assms(2) show "p x" by blast
  qed
  have rest: "takeWhile p [r + k + 1 ..< n] = []"
  proof (cases "r + k + 1 < n")
    case True
    then have "[r + k + 1 ..< n] = (r + k + 1) # [Suc (r + k + 1) ..< n]"
      by (rule upt_conv_Cons)
    with True assms(3) show ?thesis by simp
  next
    case False
    then show ?thesis by simp
  qed
  have "takeWhile p ([r + 1 ..< r + k + 1] @ [r + k + 1 ..< n]) =
        [r + 1 ..< r + k + 1] @ takeWhile p [r + k + 1 ..< n]"
    using all by (rule takeWhile_append2)
  with split rest have "takeWhile p [r + 1 ..< n] = [r + 1 ..< r + k + 1]"
    by (simp only: append_Nil2)
  then show ?thesis by simp
qed




lemma sorted_wrt_total:
  "sorted_wrt R xs \<Longrightarrow> a \<in> set xs \<Longrightarrow> b \<in> set xs \<Longrightarrow> a = b \<or> R a b \<or> R b a"
  by (induction xs) auto


lemma resolve_table_order:
  assumes "resolve_table rec f tbl = Some (Inr (rws, P))" and "top_spans_ok tbl"
  shows "sorted_wrt precedes (concat rws)"
    and "\<forall>e \<in> set (concat rws). 0 \<le> r_col e \<and> 1 \<le> r_colspan e"
proof -
  from assms(1) obtain n where "process_rows rec f tbl n 0 tbl {} [] = Some (Inr (rws, P))"
    by (rule resolve_table_rows)
  then have "process_rows rec f tbl n 0 tbl {} [] = Some (Inr ([] @ rws, P))" by simp
  from process_rows_order [OF this] assms(2)
  show "sorted_wrt precedes (concat rws)"
    and "\<forall>e \<in> set (concat rws). 0 \<le> r_col e \<and> 1 \<le> r_colspan e"
    unfolding top_spans_ok_def by blast+
qed

lemma resolved_apart:
  assumes "resolve_table rec f tbl = Some (Inr (rws, P))" and "top_spans_ok tbl"
    and "a \<in> set (concat rws)" and "b \<in> set (concat rws)" and "a \<noteq> b"
  shows "precedes a b \<or> precedes b a"
  using sorted_wrt_total [OF resolve_table_order(1) [OF assms(1,2)] assms(3,4)] assms(5)
  by blast

lemma fresh_mem: "fresh Q es \<Longrightarrow> e \<in> set es \<Longrightarrow> (r_row e, r_col e) \<notin> Q"
proof (induction es arbitrary: Q)
  case Nil
  then show ?case by simp
next
  case (Cons x xs)
  show ?case
  proof (cases "e = x")
    case True
    with Cons.prems show ?thesis by simp
  next
    case False
    with Cons.prems have "fresh (Q \<union> rect x) xs" "e \<in> set xs" by auto
    from Cons.IH [OF this] show ?thesis by simp
  qed
qed

lemma fresh_sorted:
  assumes "fresh Q es" and "sorted_wrt precedes es" and "\<forall>x \<in> set es. 1 \<le> r_colspan x"
    and "a \<in> set es" and "b \<in> set es" and "precedes a b"
  shows "(r_row b, r_col b) \<notin> rect a"
  using assms
proof (induction es arbitrary: Q)
  case Nil
  then show ?case by simp
next
  case (Cons x xs)
  from Cons.prems(1) have fr: "fresh (Q \<union> rect x) xs" by simp
  from Cons.prems(2) have first: "\<forall>y \<in> set xs. precedes x y" and so: "sorted_wrt precedes xs"
    by simp_all
  from Cons.prems(3) have pos: "\<forall>y \<in> set xs. 1 \<le> r_colspan y" and px: "1 \<le> r_colspan x"
    by simp_all
  have asym: "\<And>u v. 1 \<le> r_colspan u \<Longrightarrow> 1 \<le> r_colspan v \<Longrightarrow> precedes u v \<Longrightarrow>
      precedes v u \<Longrightarrow> False"
    unfolding precedes_def by arith
  show ?case
  proof (cases "a = x")
    case ax: True
    show ?thesis
    proof (cases "b = x")
      case True
      with ax Cons.prems(6) px asym show ?thesis by blast
    next
      case False
      with Cons.prems(5) have "b \<in> set xs" by simp
      from fresh_mem [OF fr this] ax show ?thesis by simp
    qed
  next
    case False
    with Cons.prems(4) have a: "a \<in> set xs" by simp
    show ?thesis
    proof (cases "b = x")
      case True
      with first a have "precedes b a" by simp
      moreover from pos a have "1 \<le> r_colspan a" by blast
      moreover from True px have "1 \<le> r_colspan b" by simp
      ultimately show ?thesis using Cons.prems(6) asym by blast
    next
      case False
      with Cons.prems(5) have "b \<in> set xs" by simp
      from Cons.IH [OF fr so pos a this Cons.prems(6)] show ?thesis .
    qed
  qed
qed

lemma resolve_table_cover:
  assumes "resolve_table rec f tbl = Some (Inr (rws, P))" and "top_spans_ok tbl"
    and "py_max (map length tbl) = Inr n"
  shows "\<forall>r < length tbl. \<forall>c. 0 \<le> c \<and> c < int n \<longrightarrow>
           (r, c) \<in> P \<or> int (length (tbl ! r)) \<le> c"
proof -
  from assms(1,3) have "process_rows rec f tbl n 0 tbl {} [] = Some (Inr (rws, P))"
    by (simp add: resolve_table_def)
  from process_rows_cover [OF this] assms(2) show ?thesis
    unfolding top_spans_ok_def by simp
qed

lemma later_start_outside:
  assumes "precedes a b" and "1 \<le> r_colspan a"
  shows "(r_row a, r_col a) \<notin> rect b"
  using assms unfolding precedes_def rect_def by auto

lemma overlap_shape:
  assumes "precedes a b" and "(i, j) \<in> rect a" and "(i, j) \<in> rect b"
    and "(r_row b, r_col b) \<notin> rect a"
  shows "r_row a < r_row b \<and> r_col b < j \<and> (r_row b, j) \<in> rect a"
  using assms unfolding precedes_def rect_def by auto

lemma scan_row_inrange:
  assumes "scan_row rec f tbl n r row c P acc = Some (Inr (acc', P'))"
  shows "\<forall>e \<in> set acc'. e \<in> set acc \<or> r_col e < int n"
  using assms
proof (induction f arbitrary: c P acc)
  case 0
  then show ?case by (auto split: if_splits)
next
  case (Suc f)
  from Suc.prems show ?case
  proof (cases rule: scan_row_SucE)
    case finished
    then show ?thesis by simp
  next
    case skip
    from Suc.IH [OF skip(3)] show ?thesis .
  next
    case ragged
    then show ?thesis by simp
  next
    case (emit cell el)
    from Suc.IH [OF emit(5)] emit(1) show ?thesis by auto
  qed
qed

lemma process_rows_inrange:
  assumes "process_rows rec f tbl n r rws P done = Some (Inr (done', P'))"
  shows "\<forall>e \<in> set (concat done'). e \<in> set (concat done) \<or> r_col e < int n"
  using assms
proof (induction rws arbitrary: r P "done")
  case Nil
  then show ?case by simp
next
  case (Cons row rest)
  from Cons.prems obtain emitted P1 where
    scan: "scan_row rec f tbl n r row 0 P [] = Some (Inr (emitted, P1))" and
    rest: "process_rows rec f tbl n (r + 1) rest P1 (done @ [emitted]) = Some (Inr (done', P'))"
    by (auto split: option.splits sum.splits)
  from scan_row_inrange [OF scan] have e: "\<forall>e \<in> set emitted. r_col e < int n" by simp
  show ?case
  proof
    fix x assume "x \<in> set (concat done')"
    with Cons.IH [OF rest] have "x \<in> set (concat (done @ [emitted])) \<or> r_col x < int n" by blast
    then have "x \<in> set (concat done) \<or> x \<in> set emitted \<or> r_col x < int n" by auto
    with e show "x \<in> set (concat done) \<or> r_col x < int n" by blast
  qed
qed

lemma resolve_table_inrange:
  assumes "resolve_table rec f tbl = Some (Inr (rws, P))" and "py_max (map length tbl) = Inr n"
  shows "\<forall>e \<in> set (concat rws). r_col e < int n"
proof -
  from assms have "process_rows rec f tbl n 0 tbl {} [] = Some (Inr (rws, P))"
    by (simp add: resolve_table_def)
  from process_rows_inrange [OF this] show ?thesis by simp
qed

lemma resolved_row_fresh:
  assumes "resolve_table rec f tbl = Some (Inr (rws, P))" and "r < length tbl"
    and "e \<in> set (rws ! r)"
  shows "(r_row e, r_col e) \<notin> \<Union>(rect ` set (concat (take r rws)))"
proof -
  note facts = resolve_table_new [OF assms(1)]
  have "concat rws = concat (take r rws) @ concat (drop r rws)"
    by (metis append_take_drop_id concat_append)
  with facts(3) have "fresh ({} \<union> \<Union>(rect ` set (concat (take r rws)))) (concat (drop r rws))"
    by (simp add: fresh_append)
  moreover from assms(2) facts(1) have "drop r rws = rws ! r # drop (Suc r) rws"
    by (simp add: Cons_nth_drop_Suc)
  with assms(3) have "e \<in> set (concat (drop r rws))" by simp
  ultimately show ?thesis using fresh_mem by fastforce
qed

lemma table_el_rows:
  "tag (table_el rws) = ''table''" "length (children (table_el rws)) = length rws"
  "r < length rws \<Longrightarrow> tag (children (table_el rws) ! r) = ''row''"
  "r < length rws \<Longrightarrow> children (children (table_el rws) ! r) = map r_el (rws ! r)"
  by (simp_all add: table_el_def row_el_def)

lemma process_table_Suc:
  "resolve_table (process_table g) g tbl = Some (Inr (rws, P)) \<Longrightarrow>
   process_table (Suc g) parent tbl = Some (Inr (append_child parent (table_el rws)))"
  by simp


lemma process_table_appends:
  assumes "process_table g p t = Some (Inr out)"
  shows "\<exists>te. tag te = ''table'' \<and> out = append_child p te \<and>
              (\<forall>p'. process_table g p' t = Some (Inr (append_child p' te)))"
proof (cases g)
  case 0
  with assms show ?thesis by simp
next
  case (Suc h)
  with assms obtain rws P where
    r: "resolve_table (process_table h) h t = Some (Inr (rws, P))"
    and out: "out = append_child p (table_el rws)"
    by (auto split: option.splits sum.splits)
  have "tag (table_el rws) = ''table''" by (simp add: table_el_def)
  moreover have "\<forall>p'. process_table g p' t = Some (Inr (append_child p' (table_el rws)))"
    using r Suc by simp
  ultimately show ?thesis using out by blast
qed



lemma scan_row_exit:
  "\<not> c < int n \<Longrightarrow> scan_row rec f tbl n r row c P acc = Some (Inr (acc, P))"
  by (cases f) simp_all

lemma scan_row_None_0:
  "c < int n \<Longrightarrow> scan_row rec f tbl n r row c P acc = Some y \<Longrightarrow> \<exists>g. f = Suc g"
  by (cases f) simp_all

lemma scan_row_spans:
  assumes "scan_row rec f tbl n r row c P acc = Some (Inr (acc1, P1))"
    and "scan_row rec' f' tbl n r row c P acc' = Some (Inr (acc1', P1'))"
    and "map spans acc = map spans acc'"
  shows "P1 = P1' \<and> map spans acc1 = map spans acc1'"
  using assms
proof (induction f arbitrary: f' c P acc acc')
  case 0
  then have out: "\<not> c < int n" "acc1 = acc" "P1 = P" by (auto split: if_splits)
  from scan_row_exit [OF out(1)] "0.prems"(2) have "acc1' = acc'" "P1' = P" by simp_all
  with out "0.prems"(3) show ?case by simp
next
  case (Suc f)
  from Suc.prems(1) show ?case
  proof (cases rule: scan_row_SucE)
    case finished
    from scan_row_exit [OF finished(1)] Suc.prems(2) have "acc1' = acc'" "P1' = P" by simp_all
    with finished Suc.prems(3) show ?thesis by simp
  next
    case skip
    from scan_row_None_0 [OF skip(1) Suc.prems(2)] obtain g where g: "f' = Suc g" ..
    with Suc.prems(2) skip(1,2)
    have "scan_row rec' g tbl n r row (c + 1) P acc' = Some (Inr (acc1', P1'))" by simp
    from Suc.IH [OF skip(3) this Suc.prems(3)] show ?thesis .
  next
    case ragged
    from scan_row_None_0 [OF ragged(1) Suc.prems(2)] obtain g where g: "f' = Suc g" ..
    with Suc.prems(2) ragged(1-3) have "acc1' = acc'" "P1' = P" by simp_all
    with ragged(4) Suc.prems(3) show ?thesis by simp
  next
    case (emit cell el cs)
    let ?rs = "get_rowspan tbl r c cell" and ?cs = "cs"
    from scan_row_None_0 [OF emit(1) Suc.prems(2)] obtain g where g: "f' = Suc g" ..
    with Suc.prems(2) emit(1-3,6) obtain el' where
      "scan_row rec' g tbl n r row (c + ?cs) (mark_span P r ?rs c ?cs)
         (acc' @ [Resolved r c ?rs ?cs el']) = Some (Inr (acc1', P1'))"
      by (auto simp: Let_def split: option.splits sum.splits)
    moreover have "spans (Resolved r c ?rs ?cs el) = spans (Resolved r c ?rs ?cs el')"
      by (simp add: spans_def)
    then have "map spans (acc @ [Resolved r c ?rs ?cs el]) =
        map spans (acc' @ [Resolved r c ?rs ?cs el'])"
      using Suc.prems(3) by simp
    ultimately show ?thesis using Suc.IH [OF emit(5)] by blast
  qed
qed

lemma process_rows_spans:
  assumes "process_rows rec f tbl n r rws P done = Some (Inr (done1, P1))"
    and "process_rows rec' f' tbl n r rws P done' = Some (Inr (done1', P1'))"
    and "map (map spans) done = map (map spans) done'"
  shows "P1 = P1' \<and> map (map spans) done1 = map (map spans) done1'"
  using assms
proof (induction rws arbitrary: r P "done" done')
  case Nil
  then show ?case by simp
next
  case (Cons row rest)
  from Cons.prems(1) obtain emitted Q where
    scan: "scan_row rec f tbl n r row 0 P [] = Some (Inr (emitted, Q))" and
    rest: "process_rows rec f tbl n (r + 1) rest Q (done @ [emitted]) = Some (Inr (done1, P1))"
    by (auto split: option.splits sum.splits)
  from Cons.prems(2) obtain emitted' Q' where
    scan': "scan_row rec' f' tbl n r row 0 P [] = Some (Inr (emitted', Q'))" and
    rest': "process_rows rec' f' tbl n (r + 1) rest Q' (done' @ [emitted']) = Some (Inr (done1', P1'))"
    by (auto split: option.splits sum.splits)
  from scan_row_spans [OF scan scan'] have eq: "Q = Q'" "map spans emitted = map spans emitted'"
    by simp_all
  with Cons.prems(3) have "map (map spans) (done @ [emitted]) = map (map spans) (done' @ [emitted'])"
    by simp
  from Cons.IH [OF rest rest' [folded eq(1)] this] show ?case .
qed

lemma resolve_table_spans:
  assumes "resolve_table rec f tbl = Some (Inr (rws, P))"
    and "resolve_table rec' f' tbl = Some (Inr (rws', P'))"
  shows "P' = P \<and> map (map spans) rws' = map (map spans) rws"
proof -
  from assms(1) obtain n where n: "py_max (map length tbl) = Inr n"
    and a: "process_rows rec f tbl n 0 tbl {} [] = Some (Inr (rws, P))"
    by (rule resolve_table_rows)
  from assms(2) n have b: "process_rows rec' f' tbl n 0 tbl {} [] = Some (Inr (rws', P'))"
    by (simp add: resolve_table_def)
  from process_rows_spans [OF a b] show ?thesis by simp
qed


















lemma rect_take_Suc:
  "k < length new \<Longrightarrow>
   \<Union>(rect ` set (concat (take (Suc k) new))) =
     \<Union>(rect ` set (concat (take k new))) \<union> \<Union>(rect ` set (new ! k))"
  by (simp add: take_Suc_conv_app_nth image_Un)

lemma process_rows_scans:
  assumes "process_rows rec f tbl n r rws P done = Some (Inr (done @ new, P'))"
  shows "\<forall>k < length rws.
           scan_row rec f tbl n (r + k) (rws ! k) 0 (P \<union> \<Union>(rect ` set (concat (take k new)))) [] =
             Some (Inr (new ! k, P \<union> \<Union>(rect ` set (concat (take (Suc k) new)))))"
  using assms
proof (induction rws arbitrary: r P "done" new)
  case Nil
  then show ?case by simp
next
  case (Cons row rest)
  from Cons.prems obtain emitted P1 where
    scan: "scan_row rec f tbl n r row 0 P [] = Some (Inr (emitted, P1))" and
    rest: "process_rows rec f tbl n (r + 1) rest P1 (done @ [emitted]) = Some (Inr (done @ new, P'))"
    by (auto split: option.splits sum.splits)
  from process_rows_new [OF rest] obtain new' where
    "done @ new = (done @ [emitted]) @ new'" by blast
  then have eq: "new = emitted # new'" by simp
  from scan_row_new [OF scan] have P1: "P1 = P \<union> \<Union>(rect ` set emitted)" by auto
  from rest eq have "process_rows rec f tbl n (r + 1) rest P1 (done @ [emitted]) =
      Some (Inr ((done @ [emitted]) @ new', P'))" by simp
  note ih = Cons.IH [OF this]
  show ?case
  proof (intro allI impI)
    fix k assume k: "k < length (row # rest)"
    show "scan_row rec f tbl n (r + k) ((row # rest) ! k) 0
            (P \<union> \<Union>(rect ` set (concat (take k new)))) [] =
          Some (Inr (new ! k, P \<union> \<Union>(rect ` set (concat (take (Suc k) new)))))"
    proof (cases k)
      case 0
      with scan P1 eq show ?thesis by simp
    next
      case (Suc k')
      with k have k': "k' < length rest" by simp
      have a: "P \<union> \<Union>(rect ` set (concat (take k new))) =
               P1 \<union> \<Union>(rect ` set (concat (take k' new')))"
        unfolding eq Suc P1 by (simp add: image_Un Un_assoc)
      have b: "P \<union> \<Union>(rect ` set (concat (take (Suc k) new))) =
               P1 \<union> \<Union>(rect ` set (concat (take (Suc k') new')))"
        unfolding eq Suc P1 by (simp add: image_Un Un_assoc)
      from ih k' have "scan_row rec f tbl n (r + 1 + k') (rest ! k') 0
            (P1 \<union> \<Union>(rect ` set (concat (take k' new')))) [] =
          Some (Inr (new' ! k', P1 \<union> \<Union>(rect ` set (concat (take (Suc k') new')))))"
        by blast
      then show ?thesis unfolding a b using Suc eq by simp
    qed
  qed
qed

lemma resolve_table_scans:
  assumes "resolve_table rec f tbl = Some (Inr (rws, P))" and "py_max (map length tbl) = Inr n"
  shows "\<forall>r < length tbl.
           scan_row rec f tbl n r (tbl ! r) 0 (\<Union>(rect ` set (concat (take r rws)))) [] =
             Some (Inr (rws ! r, \<Union>(rect ` set (concat (take (Suc r) rws)))))"
proof -
  from assms have "process_rows rec f tbl n 0 tbl {} [] = Some (Inr ([] @ rws, P))"
    by (simp add: resolve_table_def)
  from process_rows_scans [OF this] show ?thesis by simp
qed

lemma scan_row_all_claimed:
  assumes "\<forall>j. 0 \<le> j \<and> j < int n \<and> j < int (length row) \<longrightarrow> (r, j) \<in> P"
  shows "0 \<le> c \<Longrightarrow> scan_row rec f tbl n r row c P acc = Some (Inr res) \<Longrightarrow> res = (acc, P)"
proof (induction f arbitrary: c)
  case 0
  then show ?case by (auto split: if_splits)
next
  case (Suc f)
  from Suc.prems(2) show ?case
  proof (cases rule: scan_row_SucE)
    case finished
    then show ?thesis by simp
  next
    case skip
    from Suc.prems(1) have "0 \<le> c + 1" by simp
    from Suc.IH [OF this skip(3)] show ?thesis .
  next
    case ragged
    then show ?thesis by simp
  next
    case (emit cell el cs)
    from emit(3) Suc.prems(1) have "c < int (length row)"
      by (auto simp: py_index_def split: if_splits)
    with assms Suc.prems(1) emit(1) have "(r, c) \<in> P" by blast
    with emit(2) show ?thesis by simp
  qed
qed


section \<open>The claims\<close>

subsection \<open>Vertical merges\<close>

text \<open>
  C2. For every emitted cell whose raw cell is a vertical-merge start, the emitted
  rowspan is 1 plus the number of contiguous rows immediately below whose cell at the
  same column is a continuation, the count stopping at the first row without that marker
  (a row too short for the column included) or at the end of the table. In particular a
  start followed by exactly \<open>k\<close> continuation cells has rowspan \<open>k + 1\<close>.
\<close>

theorem rowspan_of_start:
  assumes "resolve_table rec f tbl = Some (Inr (rws, P))"
    and "e \<in> set (concat rws)"
    and "table_cell tbl (r_row e) (r_col e) = Inr cell"
    and "is_start cell"
  shows "r_rowspan e = 1 + continuation_run tbl (r_row e) (r_col e) \<and>
         (\<forall>k. r_row e + k < length tbl \<and>
               (\<forall>i. r_row e < i \<and> i \<le> r_row e + k \<longrightarrow> continuation_at tbl (r_col e) i) \<and>
               (r_row e + k + 1 < length tbl \<longrightarrow> \<not> continuation_at tbl (r_col e) (r_row e + k + 1))
               \<longrightarrow> r_rowspan e = k + 1)"
proof -
  from resolved_cell_source [OF assms(1,2)] assms(3)
  have "r_rowspan e = get_rowspan tbl (r_row e) (r_col e) cell" by auto
  with assms(4) have run: "r_rowspan e = 1 + continuation_run tbl (r_row e) (r_col e)"
    by (simp add: get_rowspan_def is_start_def count_rowspan_run continuation_run_def)
  show ?thesis
  proof (intro conjI allI impI)
    show "r_rowspan e = 1 + continuation_run tbl (r_row e) (r_col e)" by (rule run)
  next
    fix k
    assume a: "r_row e + k < length tbl \<and>
               (\<forall>i. r_row e < i \<and> i \<le> r_row e + k \<longrightarrow> continuation_at tbl (r_col e) i) \<and>
               (r_row e + k + 1 < length tbl \<longrightarrow> \<not> continuation_at tbl (r_col e) (r_row e + k + 1))"
    then have "continuation_run tbl (r_row e) (r_col e) = k"
      unfolding continuation_run_def by (intro run_exact) blast+
    with run show "r_rowspan e = k + 1" by simp
  qed
qed

theorem rowspan_of_start_witness:
  "resolve_table (process_table 2) 3 demo_table = Some (Inr (demo_rows, demo_processed)) \<and>
   demo_first \<in> set (concat demo_rows) \<and>
   table_cell demo_table (r_row demo_first) (r_col demo_first) = Inr demo_cell \<and>
   is_start demo_cell \<and>
   continuation_run demo_table 0 0 = 1 \<and>
   r_rowspan demo_first = 2"
proof -
  have h1: "resolve_table (process_table 2) 3 demo_table = Some (Inr (demo_rows, demo_processed))"
    by code_simp
  have h2: "demo_first \<in> set (concat demo_rows)"
    by (simp add: demo_rows_def)
  have h3: "table_cell demo_table (r_row demo_first) (r_col demo_first) = Inr demo_cell"
    by code_simp
  have h4: "is_start demo_cell"
    by (simp add: is_start_def demo_cell_def)
  have h5: "continuation_run demo_table 0 0 = 1"
    by code_simp
  from rowspan_of_start [OF h1 h2 h3 h4] have "r_rowspan demo_first = 1 + continuation_run demo_table (r_row demo_first) (r_col demo_first)"
    by blast
  then have "r_rowspan demo_first = 2"
    using h5 by (simp add: demo_first_def)
  with h1 h2 h3 h4 h5 show ?thesis by blast
qed

subsection \<open>A continuation without a start\<close>




subsection \<open>Horizontal merges\<close>



subsection \<open>Tiling of the grid\<close>

text \<open>
  C1, as stated, fails: the source does not check that the merge directives of a table
  agree with each other. In \<open>clash_table\<close> the cell at row 0, column 1 starts a vertical
  merge of two rows, and the cell at row 1, column 0 spans two columns; both are emitted,
  and the coordinate \<open>(1, 1)\<close> lies in the rectangles of both.
\<close>

theorem tiling_counterexample:
  "top_spans_ok clash_table \<and>
   resolve_table (process_table 1) 2 clash_table =
     Some (Inr (clash_rows, {(1, 1), (1, 0), (0, 1), (0, 0)})) \<and>
   clash_tall \<in> set (concat clash_rows) \<and>
   clash_wide \<in> set (concat clash_rows) \<and>
   clash_tall \<noteq> clash_wide \<and>
   (1, 1) \<in> rect clash_tall \<inter> rect clash_wide"
proof -
  have "top_spans_ok clash_table"
    by code_simp
  moreover have "resolve_table (process_table 1) 2 clash_table =
      Some (Inr (clash_rows, {(1, 1), (1, 0), (0, 1), (0, 0)}))"
    by code_simp
  moreover have "clash_tall \<in> set (concat clash_rows)" "clash_wide \<in> set (concat clash_rows)"
    by (simp_all add: clash_rows_def)
  moreover have "clash_tall \<noteq> clash_wide"
    by (simp add: clash_tall_def clash_wide_def)
  moreover have "(1, 1) \<in> rect clash_tall \<inter> rect clash_wide"
    by (simp add: rect_def clash_tall_def clash_wide_def)
  ultimately show ?thesis by blast
qed

text \<open>
  C1, amended. For every table whose span counts are at least 1:
  \<^item> every coordinate \<open>(r, c)\<close> with \<open>r\<close> below the row count and \<open>0 \<le> c\<close> below the column
    count is covered by the rectangle of at least one emitted cell, or lies beyond the
    actual length of row \<open>r\<close>;
  \<^item> any two distinct emitted cells are ordered by emission, and neither starts inside
    the rectangle of the other;
  \<^item> the rectangles of two emitted cells overlap only where the horizontal span of the
    later cell runs, to the right of its own column, over coordinates of its row that a
    vertical merge started in an earlier row has claimed;
  \<^item> hence no two rectangles overlap when every emitted colspan is 1 or every emitted
    rowspan is 1.
\<close>

theorem resolved_spans_cover:
  assumes "resolve_table rec f tbl = Some (Inr (rws, P))"
    and "top_spans_ok tbl"
    and "py_max (map length tbl) = Inr n_cols"
  shows "(\<forall>r c. r < length tbl \<and> 0 \<le> c \<and> c < int n_cols \<longrightarrow>
            (\<exists>e \<in> set (concat rws). (r, c) \<in> rect e) \<or> int (length (tbl ! r)) \<le> c) \<and>
         (\<forall>a \<in> set (concat rws). \<forall>b \<in> set (concat rws). a \<noteq> b \<longrightarrow>
            (precedes a b \<or> precedes b a) \<and> (r_row a, r_col a) \<notin> rect b) \<and>
         (\<forall>a \<in> set (concat rws). \<forall>b \<in> set (concat rws). precedes a b \<longrightarrow>
            (\<forall>i j. (i, j) \<in> rect a \<inter> rect b \<longrightarrow>
               r_row a < r_row b \<and> r_col b < j \<and> (r_row b, j) \<in> rect a)) \<and>
         ((\<forall>e \<in> set (concat rws). r_colspan e = 1) \<or> (\<forall>e \<in> set (concat rws). r_rowspan e = 1) \<longrightarrow>
            (\<forall>a \<in> set (concat rws). \<forall>b \<in> set (concat rws). a \<noteq> b \<longrightarrow> rect a \<inter> rect b = {}))"
proof -
  note facts = resolve_table_new [OF assms(1)]
  note ord = resolve_table_order [OF assms(1,2)]
  let ?es = "concat rws"
  from ord(2) have pos: "\<forall>x \<in> set ?es. 1 \<le> r_colspan x" by blast
  have A: "\<forall>r c. r < length tbl \<and> 0 \<le> c \<and> c < int n_cols \<longrightarrow>
            (\<exists>e \<in> set ?es. (r, c) \<in> rect e) \<or> int (length (tbl ! r)) \<le> c"
  proof (intro allI impI)
    fix r c assume rc: "r < length tbl \<and> 0 \<le> c \<and> c < int n_cols"
    with resolve_table_cover [OF assms] have "(r, c) \<in> P \<or> int (length (tbl ! r)) \<le> c"
      by blast
    then show "(\<exists>e \<in> set ?es. (r, c) \<in> rect e) \<or> int (length (tbl ! r)) \<le> c"
      unfolding facts(2) by blast
  qed
  have early: "\<And>a b. a \<in> set ?es \<Longrightarrow> b \<in> set ?es \<Longrightarrow> precedes a b \<Longrightarrow>
      (r_row b, r_col b) \<notin> rect a"
    using fresh_sorted [OF facts(3) ord(1) pos] .
  have late: "\<And>a b. a \<in> set ?es \<Longrightarrow> precedes a b \<Longrightarrow> (r_row a, r_col a) \<notin> rect b"
    using later_start_outside pos by blast
  have B: "\<forall>a \<in> set ?es. \<forall>b \<in> set ?es. a \<noteq> b \<longrightarrow>
            (precedes a b \<or> precedes b a) \<and> (r_row a, r_col a) \<notin> rect b"
  proof (intro ballI impI)
    fix a b assume ab: "a \<in> set ?es" "b \<in> set ?es" "a \<noteq> b"
    from resolved_apart [OF assms(1,2) ab] have cmp: "precedes a b \<or> precedes b a" .
    then have "(r_row a, r_col a) \<notin> rect b"
      using early [OF ab(2) ab(1)] late [OF ab(1)] by blast
    with cmp show "(precedes a b \<or> precedes b a) \<and> (r_row a, r_col a) \<notin> rect b" ..
  qed
  have C: "\<forall>a \<in> set ?es. \<forall>b \<in> set ?es. precedes a b \<longrightarrow>
            (\<forall>i j. (i, j) \<in> rect a \<inter> rect b \<longrightarrow>
               r_row a < r_row b \<and> r_col b < j \<and> (r_row b, j) \<in> rect a)"
  proof (intro ballI impI allI)
    fix a b i j
    assume ab: "a \<in> set ?es" "b \<in> set ?es" "precedes a b" and ij: "(i, j) \<in> rect a \<inter> rect b"
    from ij have "(i, j) \<in> rect a" "(i, j) \<in> rect b" by simp_all
    from overlap_shape [OF ab(3) this early [OF ab]]
    show "r_row a < r_row b \<and> r_col b < j \<and> (r_row b, j) \<in> rect a" .
  qed
  have D: "(\<forall>e \<in> set ?es. r_colspan e = 1) \<or> (\<forall>e \<in> set ?es. r_rowspan e = 1) \<longrightarrow>
            (\<forall>a \<in> set ?es. \<forall>b \<in> set ?es. a \<noteq> b \<longrightarrow> rect a \<inter> rect b = {})"
  proof (intro impI ballI)
    fix a b
    assume one: "(\<forall>e \<in> set ?es. r_colspan e = 1) \<or> (\<forall>e \<in> set ?es. r_rowspan e = 1)"
      and ab: "a \<in> set ?es" "b \<in> set ?es" "a \<noteq> b"
    have none: "\<And>u v. u \<in> set ?es \<Longrightarrow> v \<in> set ?es \<Longrightarrow> precedes u v \<Longrightarrow> rect u \<inter> rect v = {}"
    proof (rule ccontr)
      fix u v assume uv: "u \<in> set ?es" "v \<in> set ?es" "precedes u v" and "rect u \<inter> rect v \<noteq> {}"
      then obtain i j where ij: "(i, j) \<in> rect u \<inter> rect v" by auto
      with C uv have sh: "r_row u < r_row v \<and> r_col v < j \<and> (r_row v, j) \<in> rect u" by blast
      from one uv(1,2) have "r_colspan v = 1 \<or> r_rowspan u = 1" by blast
      with sh ij show False by (auto simp: rect_def)
    qed
    from resolved_apart [OF assms(1,2) ab] none [OF ab(1,2)] none [OF ab(2,1)]
    show "rect a \<inter> rect b = {}" by blast
  qed
  show ?thesis
    by (rule conjI [OF A conjI [OF B conjI [OF C D]]])
qed

theorem resolved_spans_cover_witness:
  "resolve_table (process_table 2) 3 demo_table = Some (Inr (demo_rows, demo_processed)) \<and>
   top_spans_ok demo_table \<and>
   py_max (map length demo_table) = Inr 3 \<and>
   (1, 1) \<in> rect demo_first \<and>
   int (length (demo_table ! 2)) \<le> 1"
proof -
  have h1: "resolve_table (process_table 2) 3 demo_table = Some (Inr (demo_rows, demo_processed))"
    by code_simp
  have h2: "top_spans_ok demo_table"
    by code_simp
  have h3: "py_max (map length demo_table) = Inr 3"
    by code_simp
  note inst = resolved_spans_cover [OF h1 h2 h3]
  from inst have cover: "\<forall>r c. r < length demo_table \<and> 0 \<le> c \<and> c < int 3 \<longrightarrow>
      (\<exists>e \<in> set (concat demo_rows). (r, c) \<in> rect e) \<or> int (length (demo_table ! r)) \<le> c"
    by blast
  have len: "length demo_table = 3" by (simp add: demo_table_def)
  from cover have "1 < length demo_table \<and> (0::int) \<le> 1 \<and> (1::int) < int 3 \<longrightarrow>
      (\<exists>e \<in> set (concat demo_rows). (1, 1) \<in> rect e) \<or> int (length (demo_table ! 1)) \<le> 1"
    by blast
  with len have "(\<exists>e \<in> set (concat demo_rows). (1, 1) \<in> rect e) \<or> int (length (demo_table ! 1)) \<le> 1"
    by simp
  moreover have "\<not> int (length (demo_table ! 1)) \<le> 1"
    by (simp add: demo_table_def)
  ultimately have "\<exists>e \<in> set (concat demo_rows). (1, 1) \<in> rect e" by blast
  then have a: "(1, 1) \<in> rect demo_first"
    by (simp add: demo_rows_def rect_def demo_first_def)
  from cover have "2 < length demo_table \<and> (0::int) \<le> 1 \<and> (1::int) < int 3 \<longrightarrow>
      (\<exists>e \<in> set (concat demo_rows). (2, 1) \<in> rect e) \<or> int (length (demo_table ! 2)) \<le> 1"
    by blast
  with len have "(\<exists>e \<in> set (concat demo_rows). (2, 1) \<in> rect e) \<or> int (length (demo_table ! 2)) \<le> 1"
    by simp
  moreover have "\<not> (\<exists>e \<in> set (concat demo_rows). (2, 1) \<in> rect e)"
    by (simp add: demo_rows_def rect_def demo_first_def)
  ultimately have b: "int (length (demo_table ! 2)) \<le> 1" by blast
  from h1 h2 h3 a b show ?thesis by blast
qed

subsection \<open>One row element per input row\<close>

text \<open>
  C9. The \<open>table\<close> element that \<open>process_table\<close> appends to the parent holds exactly one
  \<open>row\<close> element per input row, in input order: for every \<open>r\<close>, the children of the \<open>r\<close>-th
  \<open>row\<close> element are the elements of the cells that the scan of the \<open>r\<close>-th input row
  emits, started at column 0 from the coordinates claimed by the cells of the rows
  before it, and each of these cells comes from a raw cell of the \<open>r\<close>-th input row. A row
  of which every coordinate within its actual length and the column count is already
  claimed by the spans of cells of earlier rows is kept as a \<open>row\<close> element without
  children.
\<close>

theorem one_row_per_input_row:
  assumes "resolve_table (process_table g) g tbl = Some (Inr (rws, P))"
    and "py_max (map length tbl) = Inr n_cols"
  shows "process_table (Suc g) parent tbl = Some (Inr (append_child parent (table_el rws))) \<and>
         children (append_child parent (table_el rws)) = children parent @ [table_el rws] \<and>
         tag (table_el rws) = ''table'' \<and>
         length (children (table_el rws)) = length tbl \<and>
         (\<forall>r < length tbl.
            tag (children (table_el rws) ! r) = ''row'' \<and>
            children (children (table_el rws) ! r) = map r_el (rws ! r) \<and>
            scan_row (process_table g) g tbl n_cols r (tbl ! r) 0
                (\<Union>(rect ` set (concat (take r rws)))) [] =
              Some (Inr (rws ! r, \<Union>(rect ` set (concat (take (Suc r) rws))))) \<and>
            (\<forall>e \<in> set (rws ! r). r_row e = r \<and> from_cell (process_table g) tbl (tbl ! r) e)) \<and>
         (\<forall>r < length tbl.
            (\<forall>c. 0 \<le> c \<and> c < int n_cols \<and> c < int (length (tbl ! r)) \<longrightarrow>
                 (r, c) \<in> \<Union>(rect ` set (concat (take r rws))))
            \<longrightarrow> children (children (table_el rws) ! r) = [])"
proof -
  note facts = resolve_table_new [OF assms(1)]
  note scans = resolve_table_scans [OF assms]
  have A: "process_table (Suc g) parent tbl = Some (Inr (append_child parent (table_el rws)))"
    using assms(1) by (rule process_table_Suc)
  have B: "children (append_child parent (table_el rws)) = children parent @ [table_el rws]"
    by (simp add: append_child_def)
  have C: "tag (table_el rws) = ''table''" by (rule table_el_rows)
  have D: "length (children (table_el rws)) = length tbl"
    using facts(1) by (simp add: table_el_rows)
  have E: "\<forall>r < length tbl.
            tag (children (table_el rws) ! r) = ''row'' \<and>
            children (children (table_el rws) ! r) = map r_el (rws ! r) \<and>
            scan_row (process_table g) g tbl n_cols r (tbl ! r) 0
                (\<Union>(rect ` set (concat (take r rws)))) [] =
              Some (Inr (rws ! r, \<Union>(rect ` set (concat (take (Suc r) rws))))) \<and>
            (\<forall>e \<in> set (rws ! r). r_row e = r \<and> from_cell (process_table g) tbl (tbl ! r) e)"
    using facts(1,4) scans by (simp add: table_el_rows)
  have F: "\<forall>r < length tbl.
            (\<forall>c. 0 \<le> c \<and> c < int n_cols \<and> c < int (length (tbl ! r)) \<longrightarrow>
                 (r, c) \<in> \<Union>(rect ` set (concat (take r rws))))
            \<longrightarrow> children (children (table_el rws) ! r) = []"
  proof (intro allI impI)
    fix r
    assume r: "r < length tbl"
      and h: "\<forall>c. 0 \<le> c \<and> c < int n_cols \<and> c < int (length (tbl ! r)) \<longrightarrow>
                 (r, c) \<in> \<Union>(rect ` set (concat (take r rws)))"
    from scans r have "scan_row (process_table g) g tbl n_cols r (tbl ! r) 0
                (\<Union>(rect ` set (concat (take r rws)))) [] =
              Some (Inr (rws ! r, \<Union>(rect ` set (concat (take (Suc r) rws)))))" by blast
    from scan_row_all_claimed [OF h _ this] have "rws ! r = []" by simp
    with r facts(1) show "children (children (table_el rws) ! r) = []"
      by (simp add: table_el_rows)
  qed
  show ?thesis
    by (rule conjI [OF A conjI [OF B conjI [OF C conjI [OF D conjI [OF E F]]]]])
qed

theorem one_row_per_input_row_witness:
  "resolve_table (process_table 1) 1 vmerge_table = Some (Inr (vmerge_rows, {(2, 0), (1, 0), (0, 0)})) \<and>
   py_max (map length vmerge_table) = Inr 1 \<and>
   process_table 2 document vmerge_table =
     Some (Inr (Element ''document'' [] None
       [Element ''table'' [] None
         [Element ''row'' [] None [Element ''cell'' [(''rowspan'', ''3'')] (Some ''v'') []],
          Element ''row'' [] None [],
          Element ''row'' [] None []]]))"
proof -
  have h1: "resolve_table (process_table 1) 1 vmerge_table =
      Some (Inr (vmerge_rows, {(2, 0), (1, 0), (0, 0)}))"
    by code_simp
  have h2: "py_max (map length vmerge_table) = Inr 1"
    by code_simp
  note inst = one_row_per_input_row [OF h1 h2, of document, THEN conjunct1]
  then have "process_table 2 document vmerge_table =
     Some (Inr (Element ''document'' [] None
       [Element ''table'' [] None
         [Element ''row'' [] None [Element ''cell'' [(''rowspan'', ''3'')] (Some ''v'') []],
          Element ''row'' [] None [],
          Element ''row'' [] None []]]))"
    by (simp add: numeral_2_eq_2 append_child_def document_def table_el_def row_el_def vmerge_rows_def)
  with h1 h2 show ?thesis by blast
qed

subsection \<open>The cell element\<close>



subsection \<open>Nested tables\<close>

text \<open>
  C6. A nested table is resolved by a call of \<open>process_table\<close> of its own, which starts
  from an empty \<open>processed_cells\<close> and receives nothing of the pass of the parent table
  but the cell element to append to. Stated on the model:
  \<^item> whatever the processor of nested tables does, and whatever the fuel, two passes over
    a table that return end with the same set of occupied coordinates and with the same
    coordinates, rowspans and colspans of the emitted cells: the spans of the parent do
    not depend on the resolution of nested tables;
  \<^item> the set of occupied coordinates at the end of a pass holds the rectangles of the
    cells of that pass and nothing else;
  \<^item> the spans of an emitted cell are computed from the raw cells of its own table;
  \<^item> \<open>process_table\<close> uses its parent element only to append the new \<open>table\<close> element,
    which is the same under every parent.
\<close>

theorem nested_tables_independent:
  assumes "resolve_table rec f tbl = Some (Inr (rws, P))"
  shows "(\<forall>rec' f' rws' P'. resolve_table rec' f' tbl = Some (Inr (rws', P')) \<longrightarrow>
            P' = P \<and> map (map spans) rws' = map (map spans) rws) \<and>
         P = \<Union>(rect ` set (concat rws)) \<and>
         (\<forall>e \<in> set (concat rws). \<exists>cell. table_cell tbl (r_row e) (r_col e) = Inr cell \<and>
            get_colspan cell = Inr (r_colspan e) \<and>
            r_rowspan e = get_rowspan tbl (r_row e) (r_col e) cell) \<and>
         (\<forall>g p t out. process_table g p t = Some (Inr out) \<longrightarrow>
            (\<exists>te. out = append_child p te \<and>
                  (\<forall>p'. process_table g p' t = Some (Inr (append_child p' te)))))"
proof -
  have A: "\<forall>rec' f' rws' P'. resolve_table rec' f' tbl = Some (Inr (rws', P')) \<longrightarrow>
            P' = P \<and> map (map spans) rws' = map (map spans) rws"
    using resolve_table_spans [OF assms] by blast
  have B: "P = \<Union>(rect ` set (concat rws))"
    using assms by (rule resolve_table_new)
  have C: "\<forall>e \<in> set (concat rws). \<exists>cell. table_cell tbl (r_row e) (r_col e) = Inr cell \<and>
            get_colspan cell = Inr (r_colspan e) \<and>
            r_rowspan e = get_rowspan tbl (r_row e) (r_col e) cell"
    using resolved_cell_source [OF assms] by blast
  have D: "\<forall>g p t out. process_table g p t = Some (Inr out) \<longrightarrow>
            (\<exists>te. out = append_child p te \<and>
                  (\<forall>p'. process_table g p' t = Some (Inr (append_child p' te))))"
    using process_table_appends by blast
  show ?thesis
    by (rule conjI [OF A conjI [OF B conjI [OF C D]]])
qed

theorem nested_tables_independent_witness:
  "resolve_table (process_table 2) 3 demo_table = Some (Inr (demo_rows, demo_processed)) \<and>
   resolve_table (\<lambda>el t. Some (Inr el)) 5 demo_table =
     Some (Inr ([[Resolved 0 0 2 2
                    (Element ''cell'' [(''rowspan'', ''2''), (''colspan'', ''2'')]
                       (Some [CHR ''a'', CHR 0x0A, CHR ''b'']) []),
                  Resolved 0 2 1 1 (Element ''cell'' [] (Some ''c'') [])],
                 [Resolved 1 2 1 1 (Element ''cell'' [] (Some ''e'') [])],
                 [Resolved 2 0 1 1 (Element ''cell'' [] (Some ''f'') [])]], demo_processed)) \<and>
   map (map spans) demo_rows =
     [[(0, 0, 2, 2), (0, 2, 1, 1)], [(1, 2, 1, 1)], [(2, 0, 1, 1)]]"
proof -
  have h1: "resolve_table (process_table 2) 3 demo_table = Some (Inr (demo_rows, demo_processed))"
    by code_simp
  have h2: "resolve_table (\<lambda>el t. Some (Inr el)) 5 demo_table =
     Some (Inr ([[Resolved 0 0 2 2
                    (Element ''cell'' [(''rowspan'', ''2''), (''colspan'', ''2'')]
                       (Some [CHR ''a'', CHR 0x0A, CHR ''b'']) []),
                  Resolved 0 2 1 1 (Element ''cell'' [] (Some ''c'') [])],
                 [Resolved 1 2 1 1 (Element ''cell'' [] (Some ''e'') [])],
                 [Resolved 2 0 1 1 (Element ''cell'' [] (Some ''f'') [])]], demo_processed))"
    by code_simp
  from nested_tables_independent [OF h1] h2
  have "map (map spans)
          [[Resolved 0 0 2 2
                    (Element ''cell'' [(''rowspan'', ''2''), (''colspan'', ''2'')]
                       (Some [CHR ''a'', CHR 0x0A, CHR ''b'']) []),
                  Resolved 0 2 1 1 (Element ''cell'' [] (Some ''c'') [])],
                 [Resolved 1 2 1 1 (Element ''cell'' [] (Some ''e'') [])],
                 [Resolved 2 0 1 1 (Element ''cell'' [] (Some ''f'') [])]] =
        map (map spans) demo_rows"
    by blast
  then have "map (map spans) demo_rows =
     [[(0, 0, 2, 2), (0, 2, 1, 1)], [(1, 2, 1, 1)], [(2, 0, 1, 1)]]"
    by (simp add: spans_def)
  with h1 h2 show ?thesis by blast
qed

subsection \<open>Termination of the column scan\<close>



subsection \<open>Ragged rows\<close>




end
